theory Spec2Isabelle
  imports Main "HOL-Library.Finite_Map"
begin

section \<open>Automata as the visualizer receives them\<close>

text \<open>
  The visualizer takes an automaton as a Python dictionary with the keys
  \<^verbatim>\<open>'states'\<close>, \<^verbatim>\<open>'alphabet'\<close>, \<^verbatim>\<open>'transitions'\<close>, \<^verbatim>\<open>'start_state'\<close> and
  \<^verbatim>\<open>'accept_states'\<close>. States and symbols are Python strings. The transition table is a
  Python dictionary, hence a finite map, keyed by pairs (state, symbol); its values are
  single states for a DFA and lists of states for an NFA, so the record is parameterised
  by the type of the values.
\<close>

type_synonym state = string
type_synonym symbol = string

record 'v automaton =
  states :: "state list"
  alphabet :: "symbol list"
  transitions :: "(state \<times> symbol, 'v) fmap"
  start_state :: state
  accept_states :: "state list"

type_synonym dfa = "state automaton"
type_synonym nfa = "state list automaton"

section \<open>The path of a string through a DFA\<close>

text \<open>
  Lines 57 to 70 of \<^verbatim>\<open>visualize_dfa_path\<close>:
  \<^verbatim>\<open>
    accepted = True
    current_state = dfa['start_state']
    path = [current_state]
    for symbol in s:
        next_state = dfa['transitions'].get((current_state, symbol), None)
        if next_state is None:
            accepted = False
            break
        current_state = next_state
        path.append(current_state)
    accepted = accepted and current_state in dfa['accept_states']
  \<close>
  Iterating over a Python string yields its characters one by one, each of them a string
  of length one; the input is therefore modelled as the list of these symbols. The loop
  state is the triple of the variables \<^verbatim>\<open>accepted\<close>, \<^verbatim>\<open>current_state\<close> and \<^verbatim>\<open>path\<close>;
  the \<^verbatim>\<open>break\<close> leaves the loop with the triple as it stands.
\<close>

fun path_loop ::
  "(state \<times> symbol, state) fmap \<Rightarrow> symbol list \<Rightarrow> bool \<times> state \<times> state list
    \<Rightarrow> bool \<times> state \<times> state list" where
  "path_loop t [] (accepted, current_state, path) = (accepted, current_state, path)"
| "path_loop t (symbol # rest) (accepted, current_state, path) =
     (case fmlookup t (current_state, symbol) of
        None \<Rightarrow> (False, current_state, path)
      | Some next_state \<Rightarrow> path_loop t rest (accepted, next_state, path @ [next_state]))"

text \<open>
  The function returns the triple (graph, accepted, path). The graph is built after line 70
  from \<^verbatim>\<open>accepted\<close> and \<^verbatim>\<open>path\<close> by calls into the drawing library and does not feed back
  into them; the model returns the pair (accepted, path).
\<close>

definition visualize_dfa_path :: "dfa \<Rightarrow> symbol list \<Rightarrow> bool \<times> state list" where
  "visualize_dfa_path dfa s =
     (case path_loop (transitions dfa) s (True, start_state dfa, [start_state dfa]) of
        (accepted, current_state, path) \<Rightarrow>
          (accepted \<and> current_state \<in> set (accept_states dfa), path))"

subsection \<open>The notions the specification uses for a run\<close>

text \<open>
  The state reached from \<open>q\<close> after consuming a whole string, if every symbol has a
  transition (the extended transition function of the DFA).
\<close>

fun final_state :: "(state \<times> symbol, state) fmap \<Rightarrow> state \<Rightarrow> symbol list \<Rightarrow> state option" where
  "final_state t q [] = Some q"
| "final_state t q (a # w) =
     (case fmlookup t (q, a) of None \<Rightarrow> None | Some q' \<Rightarrow> final_state t q' w)"

text \<open>The number of symbols consumed from \<open>q\<close> before the first missing transition.\<close>

fun consumed :: "(state \<times> symbol, state) fmap \<Rightarrow> state \<Rightarrow> symbol list \<Rightarrow> nat" where
  "consumed t q [] = 0"
| "consumed t q (a # w) =
     (case fmlookup t (q, a) of None \<Rightarrow> 0 | Some q' \<Rightarrow> Suc (consumed t q' w))"

text \<open>
  The states the loop appends to the path from \<open>q\<close>: one per consumed symbol, up to the
  first missing transition.
\<close>

fun run_states :: "(state \<times> symbol, state) fmap \<Rightarrow> state \<Rightarrow> symbol list \<Rightarrow> state list" where
  "run_states t q [] = []"
| "run_states t q (a # w) =
     (case fmlookup t (q, a) of None \<Rightarrow> [] | Some q' \<Rightarrow> q' # run_states t q' w)"

text \<open>The DFA of the demonstration driver (counting modulo three).\<close>

definition demo_dfa :: dfa where
  "demo_dfa = \<lparr>
     states = [''q0'', ''q1'', ''q2''],
     alphabet = [''0'', ''1''],
     transitions = fmap_of_list [
       ((''q0'', ''0''), ''q0''),
       ((''q0'', ''1''), ''q1''),
       ((''q1'', ''0''), ''q2''),
       ((''q1'', ''1''), ''q0''),
       ((''q2'', ''0''), ''q1''),
       ((''q2'', ''1''), ''q2'')],
     start_state = ''q0'',
     accept_states = [''q2''] \<rparr>"

section \<open>Epsilon closures of an NFA\<close>

text \<open>
  \<^verbatim>\<open>
  def calculate_epsilon_closures(nfa):
      epsilon_closures = {}
      for state in nfa['states']:
          epsilon_closures[state] = set()
          visited = set()
          stack = [state]
          while stack:
              current_state = stack.pop()
              if current_state in visited:
                  continue
              visited.add(current_state)
              epsilon_closures[state].add(current_state)
              for next_state in nfa['transitions'].get((current_state, '\<lambda>'), []):
                  stack.append(next_state)
      return epsilon_closures
  \<close>
  The epsilon symbol of the source is the one-character string holding the Greek small
  letter lambda (U+03BB); as a \<^typ>\<open>string\<close> it is the two bytes of its UTF-8 encoding.
\<close>

definition epsilon :: symbol where
  "epsilon = [CHR 0xCE, CHR 0xBB]"

text \<open>
  The subscript \<^verbatim>\<open>epsilon_closures[state]\<close> raises \<^verbatim>\<open>KeyError\<close> on a missing key; the
  model keeps that branch.
\<close>

datatype py_error = KeyError

text \<open>The lookup \<^verbatim>\<open>nfa['transitions'].get((current_state, '\<lambda>'), [])\<close>.\<close>

definition epsilon_targets :: "(state \<times> symbol, state list) fmap \<Rightarrow> state \<Rightarrow> state list" where
  "epsilon_targets t current_state =
     (case fmlookup t (current_state, epsilon) of None \<Rightarrow> [] | Some next_states \<Rightarrow> next_states)"

text \<open>
  The \<^verbatim>\<open>while stack\<close> loop, on the variables \<^verbatim>\<open>epsilon_closures\<close>, \<^verbatim>\<open>visited\<close> and
  \<^verbatim>\<open>stack\<close>. The top of the stack is the end of the list: \<^verbatim>\<open>pop()\<close> removes the last
  element, \<^verbatim>\<open>append\<close> adds behind it, and the inner \<^verbatim>\<open>for\<close> loop appends the targets in
  the order of their list. The recursion is not structural; it terminates because every
  iteration either marks a state of the finite universe (the stack and the targets of the
  table) as visited, or shortens the stack.
\<close>

function closure_loop ::
  "(state \<times> symbol, state list) fmap \<Rightarrow> state
     \<Rightarrow> (state, state set) fmap \<times> state set \<times> state list
     \<Rightarrow> py_error + (state, state set) fmap \<times> state set \<times> state list" where
  "closure_loop t state (epsilon_closures, visited, stack) =
     (if stack = [] then Inr (epsilon_closures, visited, stack)
      else if last stack \<in> visited then
        closure_loop t state (epsilon_closures, visited, butlast stack)
      else
        (case fmlookup epsilon_closures state of
           None \<Rightarrow> Inl KeyError
         | Some closure \<Rightarrow>
             closure_loop t state
               (fmupd state (insert (last stack) closure) epsilon_closures,
                insert (last stack) visited,
                butlast stack @ epsilon_targets t (last stack))))"
  by pat_completeness auto
termination
proof (relation "inv_image (finite_psubset <*lex*> less_than)
    (\<lambda>(t, state, epsilon_closures, visited, stack).
       ((set stack \<union> \<Union> (set ` fmran' t)) - visited, length stack))", goal_cases)
  case 1
  show ?case by (intro wf_inv_image wf_lex_prod wf_finite_psubset wf_less_than)
next
  case (2 t state epsilon_closures visited stack)
  then have "set (butlast stack) \<subseteq> set stack"
    by (auto dest: in_set_butlastD)
  with 2 show ?case
    by (auto simp: finite_psubset_def fmran'_alt_def dest: in_set_butlastD)
next
  case (3 t state epsilon_closures visited stack closure)
  let ?R = "\<Union> (set ` fmran' t)"
  have fin: "finite ((set stack \<union> ?R) - visited)"
    by (simp add: fmran'_alt_def)
  have sub1: "set (butlast stack) \<subseteq> set stack"
    by (auto dest: in_set_butlastD)
  have sub2: "set (epsilon_targets t (last stack)) \<subseteq> ?R"
  proof (cases "fmlookup t (last stack, epsilon)")
    case None
    then show ?thesis by (simp add: epsilon_targets_def)
  next
    case (Some next_states)
    then have "next_states \<in> fmran' t" by (rule fmran'I)
    with Some show ?thesis by (auto simp: epsilon_targets_def)
  qed
  have mem: "last stack \<in> (set stack \<union> ?R) - visited"
    using 3 by simp
  have "(set (butlast stack @ epsilon_targets t (last stack)) \<union> ?R) - insert (last stack) visited
          \<subset> (set stack \<union> ?R) - visited"
    using sub1 sub2 mem by auto
  with fin show ?case
    by (simp add: finite_psubset_def)
qed

declare closure_loop.simps [simp del]

text \<open>The \<^verbatim>\<open>for state in nfa['states']\<close> loop, and the function.\<close>

fun states_loop ::
  "(state \<times> symbol, state list) fmap \<Rightarrow> state list \<Rightarrow> (state, state set) fmap
     \<Rightarrow> py_error + (state, state set) fmap" where
  "states_loop t [] epsilon_closures = Inr epsilon_closures"
| "states_loop t (state # rest) epsilon_closures =
     (case closure_loop t state (fmupd state {} epsilon_closures, {}, [state]) of
        Inl e \<Rightarrow> Inl e
      | Inr (epsilon_closures', visited, stack) \<Rightarrow> states_loop t rest epsilon_closures')"

definition calculate_epsilon_closures :: "nfa \<Rightarrow> py_error + (state, state set) fmap" where
  "calculate_epsilon_closures nfa = states_loop (transitions nfa) (states nfa) fmempty"

subsection \<open>Reachability by epsilon transitions, as the specification words it\<close>

text \<open>
  An epsilon edge leads from \<open>p\<close> to \<open>q\<close> when the table has an entry for \<open>p\<close> and the
  epsilon symbol whose list holds \<open>q\<close>. The closure of \<open>s\<close> is the set of states reachable
  from \<open>s\<close> by zero or more such edges.
\<close>

definition epsilon_edges :: "(state \<times> symbol, state list) fmap \<Rightarrow> (state \<times> state) set" where
  "epsilon_edges t =
     {(p, q). \<exists>next_states. fmlookup t (p, epsilon) = Some next_states \<and> q \<in> set next_states}"

definition epsilon_reachable :: "(state \<times> symbol, state list) fmap \<Rightarrow> state \<Rightarrow> state set" where
  "epsilon_reachable t s = {q. (s, q) \<in> (epsilon_edges t)\<^sup>*}"

text \<open>The epsilon-NFA of the demonstration driver.\<close>

definition demo_e_nfa :: nfa where
  "demo_e_nfa = \<lparr>
     states = [''q0'', ''q1'', ''q2'', ''q3''],
     alphabet = [''a'', ''b''],
     transitions = fmap_of_list [
       ((''q0'', epsilon), [''q1'', ''q3'']),
       ((''q1'', ''a''), [''q2'']),
       ((''q2'', ''b''), [''q0'']),
       ((''q3'', ''b''), [''q2''])],
     start_state = ''q0'',
     accept_states = [''q2''] \<rparr>"

text \<open>An NFA whose epsilon transitions form a cycle through all three of its states.\<close>

definition cyclic_e_nfa :: nfa where
  "cyclic_e_nfa = \<lparr>
     states = [''q0'', ''q1'', ''q2''],
     alphabet = [''a''],
     transitions = fmap_of_list [
       ((''q0'', epsilon), [''q1'']),
       ((''q1'', epsilon), [''q2'']),
       ((''q2'', epsilon), [''q0'']),
       ((''q2'', ''a''), [''q2''])],
     start_state = ''q0'',
     accept_states = [''q2''] \<rparr>"

section \<open>The epsilon closures on a store\<close>

text \<open>
  Whether the function changes its argument depends on which objects its statements
  write to, so this section embeds \<^verbatim>\<open>calculate_epsilon_closures\<close> a second time, on an
  explicit store. Strings are immutable and are held by value; every mutable object
  (a list, a set, a dictionary) lives in the store at an address and is held by that
  address. The store has one address space for each kind of object the function meets:
  the automaton dictionaries, the transition tables (whose values are the addresses of
  lists of states), the lists of strings, the sets of strings, and the closure
  dictionaries (whose values are the addresses of sets). For the three kinds the function
  creates, a counter gives the next free address; the addresses below it are allocated.
\<close>

type_synonym addr = nat

record automaton_refs =
  states_ref :: addr
  alphabet_ref :: addr
  transitions_ref :: addr
  start_state_val :: state
  accept_states_ref :: addr

record store =
  automaton_objs :: "addr \<Rightarrow> automaton_refs"
  table_objs :: "addr \<Rightarrow> (state \<times> symbol, addr) fmap"
  list_objs :: "addr \<Rightarrow> state list"
  list_next :: addr
  set_objs :: "addr \<Rightarrow> state set"
  set_next :: addr
  closures_objs :: "addr \<Rightarrow> (state, addr) fmap"
  closures_next :: addr

text \<open>Writing an object in place, and creating a new one at the next free address.\<close>

definition list_write :: "addr \<Rightarrow> state list \<Rightarrow> store \<Rightarrow> store" where
  "list_write a xs h = h\<lparr>list_objs := (list_objs h)(a := xs)\<rparr>"

definition set_write :: "addr \<Rightarrow> state set \<Rightarrow> store \<Rightarrow> store" where
  "set_write a A h = h\<lparr>set_objs := (set_objs h)(a := A)\<rparr>"

definition closures_write :: "addr \<Rightarrow> (state, addr) fmap \<Rightarrow> store \<Rightarrow> store" where
  "closures_write a d h = h\<lparr>closures_objs := (closures_objs h)(a := d)\<rparr>"

definition alloc_list :: "state list \<Rightarrow> store \<Rightarrow> store" where
  "alloc_list xs h = (list_write (list_next h) xs h)\<lparr>list_next := Suc (list_next h)\<rparr>"

definition alloc_set :: "state set \<Rightarrow> store \<Rightarrow> store" where
  "alloc_set A h = (set_write (set_next h) A h)\<lparr>set_next := Suc (set_next h)\<rparr>"

definition alloc_closures :: "(state, addr) fmap \<Rightarrow> store \<Rightarrow> store" where
  "alloc_closures d h = (closures_write (closures_next h) d h)\<lparr>closures_next := Suc (closures_next h)\<rparr>"

text \<open>The method \<^verbatim>\<open>get(key, default)\<close> of a table, on addresses.\<close>

definition table_get :: "(state \<times> symbol, addr) fmap \<Rightarrow> state \<times> symbol \<Rightarrow> addr \<Rightarrow> addr" where
  "table_get table key fallback = (case fmlookup table key of None \<Rightarrow> fallback | Some v \<Rightarrow> v)"

text \<open>
  The loop \<^verbatim>\<open>for next_state in ...: stack.append(next_state)\<close>. A list iterator keeps the
  list and an index, and looks at the list as it is at each step; the model reads the
  list at address \<open>targets\<close> from the current store in every iteration. Not returning is
  the value \<open>None\<close>.
\<close>

partial_function (option) append_targets :: "addr \<Rightarrow> addr \<Rightarrow> nat \<Rightarrow> store \<Rightarrow> store option" where
  "append_targets targets stack i h =
     (if i < length (list_objs h targets) then
        append_targets targets stack (Suc i)
          (list_write stack (list_objs h stack @ [list_objs h targets ! i]) h)
      else Some h)"

text \<open>
  The \<^verbatim>\<open>while stack\<close> loop. \<^verbatim>\<open>stack.pop()\<close>, \<^verbatim>\<open>visited.add\<close> and
  \<^verbatim>\<open>epsilon_closures[state].add\<close> write to the objects at the addresses held by the
  variables and by the dictionary entry; \<^verbatim>\<open>nfa['transitions']\<close> is read from the store in
  every iteration; the default argument \<^verbatim>\<open>[]\<close> of \<^verbatim>\<open>get\<close> is a new list, created before
  the call.
\<close>

partial_function (option) search_loop ::
  "addr \<Rightarrow> addr \<Rightarrow> state \<Rightarrow> addr \<Rightarrow> addr \<Rightarrow> store \<Rightarrow> (py_error + store) option" where
  "search_loop nfa epsilon_closures state visited stack h =
     (if list_objs h stack = [] then Some (Inr h)
      else
        let current_state = last (list_objs h stack);
            h1 = list_write stack (butlast (list_objs h stack)) h
        in
          if current_state \<in> set_objs h1 visited then
            search_loop nfa epsilon_closures state visited stack h1
          else
            let h2 = set_write visited (insert current_state (set_objs h1 visited)) h1
            in
              (case fmlookup (closures_objs h2 epsilon_closures) state of
                 None \<Rightarrow> Some (Inl KeyError)
               | Some closure \<Rightarrow>
                   let h3 = set_write closure (insert current_state (set_objs h2 closure)) h2;
                       table = table_objs h3 (transitions_ref (automaton_objs h3 nfa));
                       fallback = list_next h3;
                       h4 = alloc_list [] h3
                   in
                     (case append_targets (table_get table (current_state, epsilon) fallback)
                             stack 0 h4 of
                        None \<Rightarrow> None
                      | Some h5 \<Rightarrow> search_loop nfa epsilon_closures state visited stack h5)))"

text \<open>
  The loop \<^verbatim>\<open>for state in nfa['states']\<close>, by index on the list at address
  \<open>state_list\<close>, and the function: it creates the dictionary, runs the loop on the list
  that \<^verbatim>\<open>nfa['states']\<close> holds, and returns the address of the dictionary.
\<close>

partial_function (option) states_for_loop ::
  "addr \<Rightarrow> addr \<Rightarrow> addr \<Rightarrow> nat \<Rightarrow> store \<Rightarrow> (py_error + store) option" where
  "states_for_loop nfa epsilon_closures state_list i h =
     (if i < length (list_objs h state_list) then
        let state = list_objs h state_list ! i;
            closure = set_next h;
            h1 = alloc_set {} h;
            h2 = closures_write epsilon_closures
                   (fmupd state closure (closures_objs h1 epsilon_closures)) h1;
            visited = set_next h2;
            h3 = alloc_set {} h2;
            stack = list_next h3;
            h4 = alloc_list [state] h3
        in
          (case search_loop nfa epsilon_closures state visited stack h4 of
             None \<Rightarrow> None
           | Some (Inl e) \<Rightarrow> Some (Inl e)
           | Some (Inr h5) \<Rightarrow> states_for_loop nfa epsilon_closures state_list (Suc i) h5)
      else Some (Inr h))"

definition calculate_epsilon_closures_store ::
  "addr \<Rightarrow> store \<Rightarrow> (py_error + addr \<times> store) option" where
  "calculate_epsilon_closures_store nfa h =
     (let epsilon_closures = closures_next h;
          h1 = alloc_closures fmempty h
      in
        (case states_for_loop nfa epsilon_closures (states_ref (automaton_objs h1 nfa)) 0 h1 of
           None \<Rightarrow> None
         | Some (Inl e) \<Rightarrow> Some (Inl e)
         | Some (Inr h2) \<Rightarrow> Some (Inr (epsilon_closures, h2))))"

declare append_targets.simps [code] search_loop.simps [code] states_for_loop.simps [code]

text \<open>
  What the store holds, read as values: the automaton at an address, and the mapping
  from states to sets of states at the address of a closure dictionary.
\<close>

definition nfa_at :: "store \<Rightarrow> addr \<Rightarrow> nfa" where
  "nfa_at h nfa =
     \<lparr>states = list_objs h (states_ref (automaton_objs h nfa)),
      alphabet = list_objs h (alphabet_ref (automaton_objs h nfa)),
      transitions = fmmap (list_objs h) (table_objs h (transitions_ref (automaton_objs h nfa))),
      start_state = start_state_val (automaton_objs h nfa),
      accept_states = list_objs h (accept_states_ref (automaton_objs h nfa))\<rparr>"

definition closures_at :: "store \<Rightarrow> addr \<Rightarrow> (state, state set) fmap" where
  "closures_at h epsilon_closures = fmmap (set_objs h) (closures_objs h epsilon_closures)"

text \<open>
  The references of the automaton at an address are allocated: they are addresses of
  objects that exist in the store. (A reference in Python always is.)
\<close>

definition allocated :: "store \<Rightarrow> addr \<Rightarrow> bool" where
  "allocated h nfa =
     (states_ref (automaton_objs h nfa) < list_next h \<and>
      alphabet_ref (automaton_objs h nfa) < list_next h \<and>
      accept_states_ref (automaton_objs h nfa) < list_next h \<and>
      (\<forall>l\<in>fmran' (table_objs h (transitions_ref (automaton_objs h nfa))). l < list_next h))"

text \<open>Every object allocated in \<open>h\<close> is the same in \<open>h'\<close>.\<close>

definition unchanged :: "store \<Rightarrow> store \<Rightarrow> bool" where
  "unchanged h h' =
     (automaton_objs h' = automaton_objs h \<and> table_objs h' = table_objs h \<and>
      (\<forall>x<list_next h. list_objs h' x = list_objs h x) \<and>
      (\<forall>x<set_next h. set_objs h' x = set_objs h x) \<and>
      (\<forall>x<closures_next h. closures_objs h' x = closures_objs h x))"

text \<open>What the two loops leave alone; used in the proofs below.\<close>

definition search_frame :: "store \<Rightarrow> store \<Rightarrow> addr \<Rightarrow> addr \<Rightarrow> addr \<Rightarrow> bool" where
  "search_frame h h' stk v a =
     ((\<forall>x<list_next h. x \<noteq> stk \<longrightarrow> list_objs h' x = list_objs h x) \<and>
      list_next h \<le> list_next h' \<and>
      (\<forall>x. x \<noteq> v \<and> x \<noteq> a \<longrightarrow> set_objs h' x = set_objs h x) \<and>
      set_next h' = set_next h \<and>
      closures_objs h' = closures_objs h \<and> closures_next h' = closures_next h \<and>
      automaton_objs h' = automaton_objs h \<and> table_objs h' = table_objs h)"

definition outer_frame :: "store \<Rightarrow> store \<Rightarrow> addr \<Rightarrow> bool" where
  "outer_frame h h' e =
     ((\<forall>x<list_next h. list_objs h' x = list_objs h x) \<and> list_next h \<le> list_next h' \<and>
      (\<forall>x<set_next h. set_objs h' x = set_objs h x) \<and> set_next h \<le> set_next h' \<and>
      (\<forall>x. x \<noteq> e \<longrightarrow> closures_objs h' x = closures_objs h x) \<and>
      closures_next h' = closures_next h \<and>
      automaton_objs h' = automaton_objs h \<and> table_objs h' = table_objs h)"

text \<open>A store that holds the driver's epsilon-NFA at address 0, and nothing else.\<close>

definition demo_store :: store where
  "demo_store = \<lparr>
     automaton_objs = (\<lambda>_. \<lparr>states_ref = 0, alphabet_ref = 1, transitions_ref = 0,
        start_state_val = ''q0'', accept_states_ref = 2\<rparr>),
     table_objs = (\<lambda>_. fmap_of_list [
        ((''q0'', epsilon), 3), ((''q1'', ''a''), 4), ((''q2'', ''b''), 5), ((''q3'', ''b''), 6)]),
     list_objs = (\<lambda>_. [])
       (0 := [''q0'', ''q1'', ''q2'', ''q3''], 1 := [''a'', ''b''], 2 := [''q2''],
        3 := [''q1'', ''q3''], 4 := [''q2''], 5 := [''q0''], 6 := [''q2'']),
     list_next = 7,
     set_objs = (\<lambda>_. {}),
     set_next = 0,
     closures_objs = (\<lambda>_. fmempty),
     closures_next = 0 \<rparr>"

text \<open>
  A store that holds a given automaton at address 0: its three lists at the addresses
  0 to 2, and the list of the table's \<open>i\<close>-th key, in the enumeration \<open>ks\<close> of the keys, at
  address \<open>3 + i\<close>.
\<close>

definition store_of :: "nfa \<Rightarrow> (state \<times> symbol) list \<Rightarrow> store" where
  "store_of N ks = \<lparr>
     automaton_objs = (\<lambda>_. \<lparr>states_ref = 0, alphabet_ref = 1, transitions_ref = 0,
        start_state_val = start_state N, accept_states_ref = 2\<rparr>),
     table_objs = (\<lambda>_. fmap_of_list (zip ks [3..<3 + length ks])),
     list_objs = (\<lambda>a. if a = 0 then states N else if a = 1 then alphabet N
        else if a = 2 then accept_states N
        else (case fmlookup (transitions N) (ks ! (a - 3)) of None \<Rightarrow> [] | Some xs \<Rightarrow> xs)),
     list_next = 3 + length ks,
     set_objs = (\<lambda>_. {}),
     set_next = 0,
     closures_objs = (\<lambda>_. fmempty),
     closures_next = 0 \<rparr>"

section \<open>Properties of the path simulation\<close>

lemma path_loop_path:
  "snd (snd (path_loop t s (acc, q, p))) = p @ run_states t q s"
  by (induction s arbitrary: q p) (auto split: option.splits)

lemma path_loop_accepted:
  "fst (path_loop t s (acc, q, p)) = (acc \<and> final_state t q s \<noteq> None)"
  by (induction s arbitrary: q p) (auto split: option.splits)

lemma path_loop_current:
  "fst (snd (path_loop t s (acc, q, p))) = last (q # run_states t q s)"
  by (induction s arbitrary: q p) (auto split: option.splits)

lemma final_state_last:
  "final_state t q s = Some q' \<Longrightarrow> last (q # run_states t q s) = q'"
proof (induction s arbitrary: q)
  case Nil
  then show ?case by simp
next
  case (Cons a w)
  then obtain q1 where q1: "fmlookup t (q, a) = Some q1" and f: "final_state t q1 w = Some q'"
    by (auto split: option.splits)
  have "last (q # run_states t q (a # w)) = last (q1 # run_states t q1 w)"
    using q1 by simp
  with Cons.IH[OF f] show ?case by simp
qed

lemma length_run_states: "length (run_states t q s) = consumed t q s"
  by (induction s arbitrary: q) (auto split: option.splits)

lemma consumed_le: "consumed t q s \<le> length s"
  by (induction s arbitrary: q) (auto split: option.splits)

lemma consumed_full: "(consumed t q s = length s) = (final_state t q s \<noteq> None)"
  by (induction s arbitrary: q) (auto split: option.splits)

lemma run_states_append:
  "final_state t q u = Some q' \<Longrightarrow> run_states t q (u @ v) = run_states t q u @ run_states t q' v"
  by (induction u arbitrary: q) (auto split: option.splits)

lemma final_state_append:
  "final_state t q u = Some q' \<Longrightarrow> final_state t q (u @ v) = final_state t q' v"
  by (induction u arbitrary: q) (auto split: option.splits)

text \<open>The result of the simulation in closed form.\<close>

lemma visualize_dfa_path_eq:
  "visualize_dfa_path dfa s =
     (final_state (transitions dfa) (start_state dfa) s \<noteq> None \<and>
        last (start_state dfa # run_states (transitions dfa) (start_state dfa) s)
          \<in> set (accept_states dfa),
      start_state dfa # run_states (transitions dfa) (start_state dfa) s)"
proof -
  let ?t = "transitions dfa" and ?q0 = "start_state dfa"
  obtain a c p where r: "path_loop ?t s (True, ?q0, [?q0]) = (a, c, p)"
    by (cases "path_loop ?t s (True, ?q0, [?q0])") auto
  from r path_loop_accepted[of ?t s True ?q0 "[?q0]"]
  have a: "a = (final_state ?t ?q0 s \<noteq> None)" by simp
  from r path_loop_current[of ?t s True ?q0 "[?q0]"]
  have c: "c = last (?q0 # run_states ?t ?q0 s)" by simp
  from r path_loop_path[of ?t s True ?q0 "[?q0]"]
  have p: "p = ?q0 # run_states ?t ?q0 s" by simp
  show ?thesis unfolding visualize_dfa_path_def r using a c p by simp
qed

lemma run_states_step:
  "Suc i < length (q # run_states t q s) \<Longrightarrow>
     fmlookup t ((q # run_states t q s) ! i, s ! i) = Some ((q # run_states t q s) ! Suc i)"
proof (induction s arbitrary: q i)
  case Nil
  then show ?case by simp
next
  case (Cons a w)
  show ?case
  proof (cases "fmlookup t (q, a)")
    case None
    with Cons.prems show ?thesis by simp
  next
    case (Some q')
    show ?thesis
    proof (cases i)
      case 0
      with Some show ?thesis by simp
    next
      case (Suc j)
      with Cons.prems Some have "Suc j < length (q' # run_states t q' w)" by simp
      from Cons.IH[OF this] Some Suc show ?thesis by simp
    qed
  qed
qed

text \<open>
  Claim C1. The simulation reports acceptance exactly when the whole string is consumed
  (the extended transition function is defined on it) and the state reached at its end
  is one of the accepting states. States passed on the way do not count.
\<close>

theorem accepted_iff_final_state_accepting:
  "fst (visualize_dfa_path dfa s) =
     (\<exists>q. final_state (transitions dfa) (start_state dfa) s = Some q \<and>
          q \<in> set (accept_states dfa))"
  unfolding visualize_dfa_path_eq
  using final_state_last[of "transitions dfa" "start_state dfa" s] by auto

text \<open>
  On the driver's DFA the string 100 passes through the accepting state q2 and ends in
  q1: it is rejected.
\<close>

lemma accepting_mid_path_rejected:
  "visualize_dfa_path demo_dfa [''1'', ''0'', ''0''] = (False, [''q0'', ''q1'', ''q2'', ''q1''])"
  by (simp add: visualize_dfa_path_def demo_dfa_def)

text \<open>
  Claim C2. If the symbol at index \<open>i\<close> has no transition from the state \<open>q\<close> reached on
  the first \<open>i\<close> symbols, the simulation stops there: the result is rejection, the path is
  the path of the first \<open>i\<close> symbols, it has \<open>i + 1\<close> elements and ends in \<open>q\<close>, whether
  or not \<open>q\<close> is accepting.
\<close>

theorem missing_transition_halts:
  assumes "i < length s"
    and "final_state (transitions dfa) (start_state dfa) (take i s) = Some q"
    and "fmlookup (transitions dfa) (q, s ! i) = None"
  shows "visualize_dfa_path dfa s = (False, snd (visualize_dfa_path dfa (take i s))) \<and>
    length (snd (visualize_dfa_path dfa s)) = i + 1 \<and>
    last (snd (visualize_dfa_path dfa s)) = q"
proof -
  let ?t = "transitions dfa" and ?q0 = "start_state dfa"
  have s: "s = take i s @ (s ! i) # drop (Suc i) s"
    using assms(1) by (simp add: id_take_nth_drop)
  have tr0: "run_states ?t q ((s ! i) # drop (Suc i) s) = []" using assms(3) by simp
  have "run_states ?t ?q0 (take i s @ (s ! i) # drop (Suc i) s) = run_states ?t ?q0 (take i s)"
    using run_states_append[OF assms(2)] tr0 by simp
  with s have tr: "run_states ?t ?q0 s = run_states ?t ?q0 (take i s)" by simp
  have "final_state ?t ?q0 (take i s @ (s ! i) # drop (Suc i) s) = None"
    using final_state_append[OF assms(2)] assms(3) by simp
  with s have fin: "final_state ?t ?q0 s = None" by simp
  have len: "length (run_states ?t ?q0 (take i s)) = i"
    using consumed_full[of ?t ?q0 "take i s"] assms(1,2) by (simp add: length_run_states)
  show ?thesis
    unfolding visualize_dfa_path_eq using tr fin len final_state_last[OF assms(2)] by simp
qed

text \<open>
  The theorem at the driver's DFA and the string 102: the symbol 2 at index 2 has no
  transition from q2, which is accepting; the string is rejected all the same.
\<close>

theorem missing_transition_halts_witness:
  "(2::nat) < length [''1'', ''0'', ''2''] \<and>
   final_state (transitions demo_dfa) (start_state demo_dfa) (take 2 [''1'', ''0'', ''2''])
     = Some ''q2'' \<and>
   fmlookup (transitions demo_dfa) (''q2'', [''1'', ''0'', ''2''] ! 2) = None \<and>
   ''q2'' \<in> set (accept_states demo_dfa) \<and>
   visualize_dfa_path demo_dfa [''1'', ''0'', ''2''] = (False, [''q0'', ''q1'', ''q2''])"
proof -
  have h1: "(2::nat) < length [''1'', ''0'', ''2'']" by simp
  have h2: "final_state (transitions demo_dfa) (start_state demo_dfa)
      (take 2 [''1'', ''0'', ''2'']) = Some ''q2''"
    by (simp add: demo_dfa_def)
  have h3: "fmlookup (transitions demo_dfa) (''q2'', [''1'', ''0'', ''2''] ! 2) = None"
    by (simp add: demo_dfa_def)
  have p: "snd (visualize_dfa_path demo_dfa (take 2 [''1'', ''0'', ''2''])) = [''q0'', ''q1'', ''q2'']"
    by (simp add: visualize_dfa_path_def demo_dfa_def)
  have a: "''q2'' \<in> set (accept_states demo_dfa)" by (simp add: demo_dfa_def)
  from missing_transition_halts[OF h1 h2 h3] p
  have "visualize_dfa_path demo_dfa [''1'', ''0'', ''2''] = (False, [''q0'', ''q1'', ''q2''])"
    by simp
  with h1 h2 h3 a show ?thesis by blast
qed

text \<open>
  Claim C3. The path has one element more than the number of symbols consumed; that
  number is at most the length of the string, and equal to it exactly when the whole
  string is consumable.
\<close>

theorem path_length_consumed:
  "length (snd (visualize_dfa_path dfa s)) = 1 + consumed (transitions dfa) (start_state dfa) s \<and>
   consumed (transitions dfa) (start_state dfa) s \<le> length s \<and>
   (consumed (transitions dfa) (start_state dfa) s = length s) =
     (final_state (transitions dfa) (start_state dfa) s \<noteq> None)"
  unfolding visualize_dfa_path_eq
  by (simp add: length_run_states consumed_le consumed_full)

text \<open>
  Claim C4, as stated: the path of every string has length \<open>len(string) + 1\<close>. It fails
  on the driver's DFA at the string 120, whose second symbol has no transition: the path
  has two elements, not four.
\<close>

theorem path_length_full_counterexample:
  "length (snd (visualize_dfa_path demo_dfa [''1'', ''2'', ''0''])) \<noteq>
     length [''1'', ''2'', ''0''] + 1"
  by (simp add: visualize_dfa_path_def demo_dfa_def)

text \<open>
  Claim C4, amended. The path never has more than \<open>len(string) + 1\<close> elements, and it has
  exactly that many when, and only when, every symbol of the string has a transition.
\<close>

theorem path_length_full_iff_consumable:
  "length (snd (visualize_dfa_path dfa s)) \<le> length s + 1 \<and>
   (length (snd (visualize_dfa_path dfa s)) = length s + 1) =
     (final_state (transitions dfa) (start_state dfa) s \<noteq> None)"
  unfolding visualize_dfa_path_eq
  using consumed_full[of "transitions dfa" "start_state dfa" s]
    consumed_le[of "transitions dfa" "start_state dfa" s]
  by (simp add: length_run_states)

text \<open>
  Claim C5. On the empty string the path is the start state alone, and the string is
  accepted exactly when the start state is accepting.
\<close>

theorem empty_string_path:
  "visualize_dfa_path dfa [] = (start_state dfa \<in> set (accept_states dfa), [start_state dfa])"
  by (simp add: visualize_dfa_path_def)

text \<open>
  Claim C10. The path is a run of the DFA: it is not empty, it starts with the start
  state, and each element but the last is taken to its successor by the table, on the
  symbol of the string at the same index.
\<close>

theorem path_is_run:
  "snd (visualize_dfa_path dfa s) \<noteq> [] \<and>
   hd (snd (visualize_dfa_path dfa s)) = start_state dfa \<and>
   (\<forall>i. Suc i < length (snd (visualize_dfa_path dfa s)) \<longrightarrow>
      fmlookup (transitions dfa) (snd (visualize_dfa_path dfa s) ! i, s ! i)
        = Some (snd (visualize_dfa_path dfa s) ! Suc i))"
  unfolding visualize_dfa_path_eq using run_states_step by simp

text \<open>The theorem at the driver's DFA, the string 1000101 and the step at index 2.\<close>

theorem path_is_run_witness:
  "Suc 2 < length (snd (visualize_dfa_path demo_dfa
      [''1'', ''0'', ''0'', ''0'', ''1'', ''0'', ''1''])) \<and>
   snd (visualize_dfa_path demo_dfa [''1'', ''0'', ''0'', ''0'', ''1'', ''0'', ''1'']) =
     [''q0'', ''q1'', ''q2'', ''q1'', ''q2'', ''q2'', ''q1'', ''q0''] \<and>
   fmlookup (transitions demo_dfa) (''q2'', ''0'') = Some ''q1''"
proof -
  let ?s = "[''1'', ''0'', ''0'', ''0'', ''1'', ''0'', ''1'']"
  have p: "snd (visualize_dfa_path demo_dfa ?s) =
      [''q0'', ''q1'', ''q2'', ''q1'', ''q2'', ''q2'', ''q1'', ''q0'']"
    by (simp add: visualize_dfa_path_def demo_dfa_def)
  then have l: "Suc 2 < length (snd (visualize_dfa_path demo_dfa ?s))" by simp
  from path_is_run[of demo_dfa ?s] l
  have "fmlookup (transitions demo_dfa) (snd (visualize_dfa_path demo_dfa ?s) ! 2, ?s ! 2)
      = Some (snd (visualize_dfa_path demo_dfa ?s) ! Suc 2)"
    by blast
  then have "fmlookup (transitions demo_dfa) (''q2'', ''0'') = Some ''q1''"
    unfolding p by simp
  with p l show ?thesis by blast
qed

section \<open>Properties of the epsilon closures\<close>

lemma set_epsilon_targets: "set (epsilon_targets t p) = epsilon_edges t `` {p}"
proof (cases "fmlookup t (p, epsilon)")
  case None
  then show ?thesis by (simp add: epsilon_targets_def epsilon_edges_def)
next
  case (Some next_states)
  then show ?thesis by (auto simp: epsilon_targets_def epsilon_edges_def)
qed

lemma closed_contains_reachable:
  assumes s: "s \<in> V" and closed: "\<forall>v\<in>V. epsilon_edges t `` {v} \<subseteq> V"
  shows "epsilon_reachable t s \<subseteq> V"
proof
  fix q assume "q \<in> epsilon_reachable t s"
  then have "(s, q) \<in> (epsilon_edges t)\<^sup>*" by (simp add: epsilon_reachable_def)
  then show "q \<in> V"
  proof (induction rule: rtrancl_induct)
    case base
    show ?case by (rule s)
  next
    case (step y z)
    with closed show ?case by blast
  qed
qed

lemma reachable_step:
  assumes "p \<in> epsilon_reachable t s"
  shows "epsilon_edges t `` {p} \<subseteq> epsilon_reachable t s"
proof
  fix q assume "q \<in> epsilon_edges t `` {p}"
  then have "(p, q) \<in> epsilon_edges t" by simp
  with assms have "(s, q) \<in> (epsilon_edges t)\<^sup>*"
    unfolding epsilon_reachable_def by (simp add: rtrancl_into_rtrancl)
  then show "q \<in> epsilon_reachable t s" by (simp add: epsilon_reachable_def)
qed

lemma reachable_refl: "s \<in> epsilon_reachable t s"
  by (simp add: epsilon_reachable_def)

lemma reachable_trans:
  assumes "m \<in> epsilon_reachable t s" 
  shows "epsilon_reachable t m \<subseteq> epsilon_reachable t s"
proof
  fix q assume "q \<in> epsilon_reachable t m"
  with assms have "(s, m) \<in> (epsilon_edges t)\<^sup>*" "(m, q) \<in> (epsilon_edges t)\<^sup>*"
    by (simp_all add: epsilon_reachable_def)
  then have "(s, q) \<in> (epsilon_edges t)\<^sup>*" by (rule rtrancl_trans)
  then show "q \<in> epsilon_reachable t s" by (simp add: epsilon_reachable_def)
qed

lemma finite_reachable: "finite (epsilon_reachable t s)"
proof -
  have "epsilon_reachable t s \<subseteq> insert s (\<Union> (set ` fmran' t))"
  proof (rule closed_contains_reachable)
    show "s \<in> insert s (\<Union> (set ` fmran' t))" by simp
    show "\<forall>v\<in>insert s (\<Union> (set ` fmran' t)).
        epsilon_edges t `` {v} \<subseteq> insert s (\<Union> (set ` fmran' t))"
    proof (intro ballI subsetI)
      fix v q assume "q \<in> epsilon_edges t `` {v}"
      then obtain ns where "fmlookup t (v, epsilon) = Some ns" "q \<in> set ns"
        by (auto simp: epsilon_edges_def)
      then have "ns \<in> fmran' t" "q \<in> set ns" by (auto intro: fmran'I)
      then show "q \<in> insert s (\<Union> (set ` fmran' t))" by blast
    qed
  qed
  moreover have "finite (insert s (\<Union> (set ` fmran' t)))"
    by (simp add: fmran'_alt_def)
  ultimately show ?thesis by (rule finite_subset)
qed

lemma fmupd_same: "fmlookup m k = Some v \<Longrightarrow> fmupd k v m = m"
  by (rule fmap_ext) auto

lemma set_stack_pop: "stack \<noteq> [] \<Longrightarrow> set stack = insert (last stack) (set (butlast stack))"
  by (induction stack rule: rev_induct) auto

lemma closure_loop_correct:
  assumes "fmlookup ec state = Some visited"
    and "visited \<union> set stack \<subseteq> epsilon_reachable t s0"
    and "s0 \<in> visited \<union> set stack"
    and "\<forall>v\<in>visited. epsilon_edges t `` {v} \<subseteq> visited \<union> set stack"
  shows "closure_loop t state (ec, visited, stack) =
           Inr (fmupd state (epsilon_reachable t s0) ec, epsilon_reachable t s0, [])"
  using assms
proof (induction t state "(ec, visited, stack)" arbitrary: ec visited stack rule: closure_loop.induct)
  case (1 t state ec visited stack)
  let ?R = "epsilon_reachable t s0"
  show ?case
  proof (cases "stack = []")
    case True
    with "1.prems" have "?R \<subseteq> visited"
      by (intro closed_contains_reachable) auto
    with "1.prems"(2) have eq: "visited = ?R" by auto
    with "1.prems"(1) have "fmupd state ?R ec = ec" by (simp add: fmupd_same)
    with True eq show ?thesis by (subst closure_loop.simps) simp
  next
    case False
    note pop = set_stack_pop[OF False]
    show ?thesis
    proof (cases "last stack \<in> visited")
      case True
      have u: "visited \<union> set (butlast stack) = visited \<union> set stack"
        using pop True by auto
      have "closure_loop t state (ec, visited, butlast stack) = Inr (fmupd state ?R ec, ?R, [])"
        using "1.prems" by (intro "1.hyps"(1)[OF False True]) (simp_all only: u)
      with False True show ?thesis by (subst closure_loop.simps) simp
    next
      case unvisited: False
      let ?x = "last stack"
      let ?ec' = "fmupd state (insert ?x visited) ec"
      let ?stack' = "butlast stack @ epsilon_targets t ?x"
      have xR: "?x \<in> ?R" using "1.prems"(2) pop by auto
      have a1: "fmlookup ?ec' state = Some (insert ?x visited)" by simp
      have a2: "insert ?x visited \<union> set ?stack' \<subseteq> ?R"
        using "1.prems"(2) pop reachable_step[OF xR] by (auto simp: set_epsilon_targets)
      have a3: "s0 \<in> insert ?x visited \<union> set ?stack'"
        using "1.prems"(3) pop by auto
      have a4: "\<forall>v\<in>insert ?x visited. epsilon_edges t `` {v} \<subseteq> insert ?x visited \<union> set ?stack'"
        using "1.prems"(4) pop by (auto simp: set_epsilon_targets)
      have "closure_loop t state (?ec', insert ?x visited, ?stack') =
              Inr (fmupd state ?R ?ec', ?R, [])"
        by (rule "1.hyps"(2)[OF False unvisited "1.prems"(1) a1 a2 a3 a4])
      with False unvisited "1.prems"(1) show ?thesis by (subst closure_loop.simps) simp
    qed
  qed
qed

lemma closure_loop_from_state:
  "closure_loop t state (fmupd state {} ec, {}, [state]) =
     Inr (fmupd state (epsilon_reachable t state) ec, epsilon_reachable t state, [])"
proof -
  have "closure_loop t state (fmupd state {} ec, {}, [state]) =
     Inr (fmupd state (epsilon_reachable t state) (fmupd state {} ec), epsilon_reachable t state, [])"
    by (rule closure_loop_correct) (simp_all add: reachable_refl)
  then show ?thesis by simp
qed

lemma states_loop_correct:
  "\<exists>ec'. states_loop t sts ec = Inr ec' \<and>
     (\<forall>q. fmlookup ec' q = (if q \<in> set sts then Some (epsilon_reachable t q) else fmlookup ec q))"
proof (induction sts arbitrary: ec)
  case Nil
  show ?case by simp
next
  case (Cons state rest)
  from Cons.IH[of "fmupd state (epsilon_reachable t state) ec"]
  obtain ec' where r: "states_loop t rest (fmupd state (epsilon_reachable t state) ec) = Inr ec'"
    and l: "\<forall>q. fmlookup ec' q = (if q \<in> set rest then Some (epsilon_reachable t q)
               else fmlookup (fmupd state (epsilon_reachable t state) ec) q)"
    by blast
  have "states_loop t (state # rest) ec = Inr ec'"
    using r by (simp add: closure_loop_from_state)
  moreover have "\<forall>q. fmlookup ec' q = (if q \<in> set (state # rest) then Some (epsilon_reachable t q) else fmlookup ec q)"
    using l by auto
  ultimately show ?case by blast
qed

lemma calculate_epsilon_closures_correct:
  "\<exists>ec. calculate_epsilon_closures nfa = Inr ec \<and>
     (\<forall>q. fmlookup ec q = (if q \<in> set (states nfa) then Some (epsilon_reachable (transitions nfa) q) else None))"
  unfolding calculate_epsilon_closures_def
  using states_loop_correct[of "transitions nfa" "states nfa" fmempty] by fastforce

text \<open>The closures the function computes on the two example automata.\<close>

lemma demo_e_nfa_closures:
  "calculate_epsilon_closures demo_e_nfa = Inr (fmap_of_list [
      (''q0'', {''q0'', ''q1'', ''q3''}), (''q1'', {''q1''}), (''q2'', {''q2''}), (''q3'', {''q3''})])"
  apply (simp add: calculate_epsilon_closures_def demo_e_nfa_def epsilon_targets_def epsilon_def closure_loop.simps)
  apply (rule fmap_ext)
  apply (auto simp: fmlookup_of_list)
  done

lemma cyclic_e_nfa_closures:
  "calculate_epsilon_closures cyclic_e_nfa = Inr (fmap_of_list [
      (''q0'', {''q0'', ''q1'', ''q2''}), (''q1'', {''q0'', ''q1'', ''q2''}), (''q2'', {''q0'', ''q1'', ''q2''})])"
  apply (simp add: calculate_epsilon_closures_def cyclic_e_nfa_def epsilon_targets_def epsilon_def closure_loop.simps)
  apply (rule fmap_ext)
  apply (auto simp: fmlookup_of_list)
  done

lemma demo_closed_closures:
  "calculate_epsilon_closures (demo_e_nfa\<lparr>states := [''q0'', ''q1'', ''q3'']\<rparr>) = Inr (fmap_of_list [
      (''q0'', {''q0'', ''q1'', ''q3''}), (''q1'', {''q1''}), (''q3'', {''q3''})])"
  apply (simp add: calculate_epsilon_closures_def demo_e_nfa_def epsilon_targets_def epsilon_def closure_loop.simps)
  apply (rule fmap_ext)
  apply (auto simp: fmlookup_of_list)
  done

text \<open>
  Claim C6. For every NFA and every state listed in its \<^verbatim>\<open>'states'\<close>, the function returns
  a mapping that has an entry for the state, and the state is a member of that entry.
\<close>

theorem closure_reflexive:
  assumes "s \<in> set (states nfa)"
  shows "\<exists>ec c. calculate_epsilon_closures nfa = Inr ec \<and> fmlookup ec s = Some c \<and> s \<in> c"
  using calculate_epsilon_closures_correct[of nfa] assms reachable_refl by fastforce

text \<open>The theorem at the driver's epsilon-NFA and its state q0.\<close>

theorem closure_reflexive_witness:
  "''q0'' \<in> set (states demo_e_nfa) \<and>
   (\<exists>ec c. calculate_epsilon_closures demo_e_nfa = Inr ec \<and> fmlookup ec ''q0'' = Some c \<and> ''q0'' \<in> c)"
proof -
  have h: "''q0'' \<in> set (states demo_e_nfa)" by (simp add: demo_e_nfa_def)
  from closure_reflexive[OF h] h show ?thesis by blast
qed

text \<open>
  Claim C7. For every NFA, cyclic epsilon transitions included, the function returns (it
  is total: the recursion of the search terminates on every input), and the entry of
  every listed state is exactly the set of states reachable from it by zero or more
  epsilon transitions. A state found on the stack that was already visited in the
  current search is dropped without being expanded.
\<close>

theorem closures_are_reachable_sets:
  "(\<exists>ec. calculate_epsilon_closures nfa = Inr ec \<and>
      (\<forall>s\<in>set (states nfa). fmlookup ec s = Some (epsilon_reachable (transitions nfa) s))) \<and>
   (\<forall>state ec visited stack. stack \<noteq> [] \<and> last stack \<in> visited \<longrightarrow>
      closure_loop (transitions nfa) state (ec, visited, stack) =
        closure_loop (transitions nfa) state (ec, visited, butlast stack))"
proof
  show "\<exists>ec. calculate_epsilon_closures nfa = Inr ec \<and>
      (\<forall>s\<in>set (states nfa). fmlookup ec s = Some (epsilon_reachable (transitions nfa) s))"
    using calculate_epsilon_closures_correct[of nfa] by fastforce
  show "\<forall>state ec visited stack. stack \<noteq> [] \<and> last stack \<in> visited \<longrightarrow>
      closure_loop (transitions nfa) state (ec, visited, stack) =
        closure_loop (transitions nfa) state (ec, visited, butlast stack)"
    by (intro allI impI, subst closure_loop.simps) simp
qed

text \<open>
  The theorem at the NFA whose epsilon transitions form the cycle q0, q1, q2: the closure
  of q1 is the whole cycle.
\<close>

theorem closures_are_reachable_sets_witness:
  "''q1'' \<in> set (states cyclic_e_nfa) \<and>
   calculate_epsilon_closures cyclic_e_nfa = Inr (fmap_of_list [
      (''q0'', {''q0'', ''q1'', ''q2''}), (''q1'', {''q0'', ''q1'', ''q2''}),
      (''q2'', {''q0'', ''q1'', ''q2''})]) \<and>
   epsilon_reachable (transitions cyclic_e_nfa) ''q1'' = {''q0'', ''q1'', ''q2''} \<and>
   [''q0'', ''q1''] \<noteq> [] \<and> last [''q0'', ''q1''] \<in> {''q1''} \<and>
   closure_loop (transitions cyclic_e_nfa) ''q1'' (fmempty, {''q1''}, [''q0'', ''q1'']) =
     closure_loop (transitions cyclic_e_nfa) ''q1'' (fmempty, {''q1''}, butlast [''q0'', ''q1''])"
proof -
  have h: "''q1'' \<in> set (states cyclic_e_nfa)" by (simp add: cyclic_e_nfa_def)
  from closures_are_reachable_sets[of cyclic_e_nfa] obtain ec where
    ec: "calculate_epsilon_closures cyclic_e_nfa = Inr ec"
    and r: "\<forall>s\<in>set (states cyclic_e_nfa). fmlookup ec s = Some (epsilon_reachable (transitions cyclic_e_nfa) s)"
    and n: "\<forall>state ec visited stack. stack \<noteq> [] \<and> last stack \<in> visited \<longrightarrow>
      closure_loop (transitions cyclic_e_nfa) state (ec, visited, stack) =
        closure_loop (transitions cyclic_e_nfa) state (ec, visited, butlast stack)"
    by blast
  from r h have "fmlookup ec ''q1'' = Some (epsilon_reachable (transitions cyclic_e_nfa) ''q1'')"
    by blast
  moreover from ec have "fmlookup ec ''q1'' = Some {''q0'', ''q1'', ''q2''}"
    by (auto simp: cyclic_e_nfa_closures)
  ultimately have e: "epsilon_reachable (transitions cyclic_e_nfa) ''q1'' = {''q0'', ''q1'', ''q2''}"
    by simp
  have c: "[''q0'', ''q1''] \<noteq> [] \<and> last [''q0'', ''q1''] \<in> {''q1''}" by simp
  with n have "closure_loop (transitions cyclic_e_nfa) ''q1'' (fmempty, {''q1''}, [''q0'', ''q1'']) =
     closure_loop (transitions cyclic_e_nfa) ''q1'' (fmempty, {''q1''}, butlast [''q0'', ''q1''])"
    by blast
  with h e c cyclic_e_nfa_closures show ?thesis by blast
qed


text \<open>
  Claim C8. Let \<open>c\<close> be the closure computed for a listed state. The closures that the
  mapping holds for the members of \<open>c\<close> add up to \<open>c\<close>; and running the function again
  with the members of \<open>c\<close> as the states to start from yields a mapping whose keys are
  the members of \<open>c\<close> and whose values, the closures of these members, add up to \<open>c\<close>.
\<close>

theorem closure_idempotent:
  assumes "s \<in> set (states nfa)"
  shows "\<exists>ec c. calculate_epsilon_closures nfa = Inr ec \<and> fmlookup ec s = Some c \<and> finite c \<and>
     {q. \<exists>m\<in>c. \<exists>cm. fmlookup ec m = Some cm \<and> q \<in> cm} = c \<and>
     (\<forall>ms. set ms = c \<longrightarrow>
        (\<exists>ec'. calculate_epsilon_closures (nfa\<lparr>states := ms\<rparr>) = Inr ec' \<and>
           fmdom' ec' = c \<and> \<Union> (fmran' ec') = c))"
proof -
  let ?t = "transitions nfa"
  let ?c = "epsilon_reachable ?t s"
  from calculate_epsilon_closures_correct[of nfa] obtain ec where
    ec: "calculate_epsilon_closures nfa = Inr ec"
    and l: "\<forall>q. fmlookup ec q = (if q \<in> set (states nfa) then Some (epsilon_reachable ?t q) else None)"
    by blast
  from l assms have c: "fmlookup ec s = Some ?c" by simp
  have u: "{q. \<exists>m\<in>?c. \<exists>cm. fmlookup ec m = Some cm \<and> q \<in> cm} = ?c"
  proof (intro equalityI subsetI)
    fix q assume "q \<in> {q. \<exists>m\<in>?c. \<exists>cm. fmlookup ec m = Some cm \<and> q \<in> cm}"
    then obtain m cm where m: "m \<in> ?c" and cm: "fmlookup ec m = Some cm" and q: "q \<in> cm"
      by blast
    from cm l have "cm = epsilon_reachable ?t m" by (auto split: if_splits)
    with q reachable_trans[OF m] show "q \<in> ?c" by blast
  next
    fix q assume "q \<in> ?c"
    with c reachable_refl[of s ?t] show "q \<in> {q. \<exists>m\<in>?c. \<exists>cm. fmlookup ec m = Some cm \<and> q \<in> cm}"
      by blast
  qed
  have r: "\<forall>ms. set ms = ?c \<longrightarrow>
        (\<exists>ec'. calculate_epsilon_closures (nfa\<lparr>states := ms\<rparr>) = Inr ec' \<and>
           fmdom' ec' = ?c \<and> \<Union> (fmran' ec') = ?c)"
  proof (intro allI impI)
    fix ms assume ms: "set ms = ?c"
    from calculate_epsilon_closures_correct[of "nfa\<lparr>states := ms\<rparr>"] obtain ec' where
      ec': "calculate_epsilon_closures (nfa\<lparr>states := ms\<rparr>) = Inr ec'"
      and l': "\<forall>q. fmlookup ec' q = (if q \<in> set ms then Some (epsilon_reachable ?t q) else None)"
      by auto
    have d: "fmdom' ec' = ?c"
      using l' ms by (auto simp: fmlookup_dom'_iff)
    have "\<Union> (fmran' ec') = ?c"
    proof (intro equalityI subsetI)
      fix q assume "q \<in> \<Union> (fmran' ec')"
      then obtain cm where "cm \<in> fmran' ec'" and q: "q \<in> cm" by blast
      then obtain m where "fmlookup ec' m = Some cm" by (auto simp: fmlookup_ran'_iff)
      with l' ms have "m \<in> ?c" "cm = epsilon_reachable ?t m" by (auto split: if_splits)
      with q reachable_trans[of m ?t s] show "q \<in> ?c" by blast
    next
      fix q assume q: "q \<in> ?c"
      have "s \<in> set ms" using ms reachable_refl by simp
      with l' have "fmlookup ec' s = Some ?c" by simp
      then have "?c \<in> fmran' ec'" by (rule fmran'I)
      with q show "q \<in> \<Union> (fmran' ec')" by blast
    qed
    then show "\<exists>ec'. calculate_epsilon_closures (nfa\<lparr>states := ms\<rparr>) = Inr ec' \<and>
           fmdom' ec' = ?c \<and> \<Union> (fmran' ec') = ?c"
      using ec' d by (intro exI[of _ ec'] conjI)
  qed
  show ?thesis
    by (intro exI[of _ ec] exI[of _ ?c] conjI ec c u r finite_reachable)
qed


text \<open>
  The theorem at the driver's epsilon-NFA and its state q0, whose closure has the
  members q0, q1 and q3.
\<close>

theorem closure_idempotent_witness:
  "''q0'' \<in> set (states demo_e_nfa) \<and>
   set [''q0'', ''q1'', ''q3''] = {''q0'', ''q1'', ''q3''} \<and>
   (\<exists>ec. calculate_epsilon_closures demo_e_nfa = Inr ec \<and>
      fmlookup ec ''q0'' = Some {''q0'', ''q1'', ''q3''}) \<and>
   (\<exists>ec'. calculate_epsilon_closures (demo_e_nfa\<lparr>states := [''q0'', ''q1'', ''q3'']\<rparr>) = Inr ec' \<and>
      fmdom' ec' = {''q0'', ''q1'', ''q3''} \<and> \<Union> (fmran' ec') = {''q0'', ''q1'', ''q3''})"
proof -
  have h: "''q0'' \<in> set (states demo_e_nfa)" by (simp add: demo_e_nfa_def)
  have m: "set [''q0'', ''q1'', ''q3''] = {''q0'', ''q1'', ''q3''}" by simp
  from closure_idempotent[OF h] show ?thesis
  proof (elim exE conjE)
  fix ec c
  assume ec: "calculate_epsilon_closures demo_e_nfa = Inr ec"
    and c: "fmlookup ec ''q0'' = Some c"
    and r: "\<forall>ms. set ms = c \<longrightarrow>
        (\<exists>ec'. calculate_epsilon_closures (demo_e_nfa\<lparr>states := ms\<rparr>) = Inr ec' \<and>
           fmdom' ec' = c \<and> \<Union> (fmran' ec') = c)"
  from ec have "ec = fmap_of_list [
      (''q0'', {''q0'', ''q1'', ''q3''}), (''q1'', {''q1''}), (''q2'', {''q2''}), (''q3'', {''q3''})]"
    unfolding demo_e_nfa_closures by simp
  with c have c': "c = {''q0'', ''q1'', ''q3''}"
    by simp
  from m c' have mc: "set [''q0'', ''q1'', ''q3''] = c" by simp
  have "\<exists>ec'. calculate_epsilon_closures (demo_e_nfa\<lparr>states := [''q0'', ''q1'', ''q3'']\<rparr>) = Inr ec' \<and>
      fmdom' ec' = c \<and> \<Union> (fmran' ec') = c"
    by (rule r[rule_format, OF mc])
  then have r': "\<exists>ec'. calculate_epsilon_closures (demo_e_nfa\<lparr>states := [''q0'', ''q1'', ''q3'']\<rparr>) = Inr ec' \<and>
      fmdom' ec' = {''q0'', ''q1'', ''q3''} \<and> \<Union> (fmran' ec') = {''q0'', ''q1'', ''q3''}"
    unfolding c' .
  from ec c have e: "\<exists>ec. calculate_epsilon_closures demo_e_nfa = Inr ec \<and>
      fmlookup ec ''q0'' = Some {''q0'', ''q1'', ''q3''}"
    unfolding c' by (intro exI[of _ ec] conjI)
  show ?thesis by (intro conjI h m e r')
  qed
qed

section \<open>The function leaves its argument unchanged\<close>

lemma list_write_sel [simp]:
  "list_objs (list_write a xs h) = (list_objs h)(a := xs)"
  "list_next (list_write a xs h) = list_next h"
  "set_objs (list_write a xs h) = set_objs h"
  "set_next (list_write a xs h) = set_next h"
  "closures_objs (list_write a xs h) = closures_objs h"
  "closures_next (list_write a xs h) = closures_next h"
  "automaton_objs (list_write a xs h) = automaton_objs h"
  "table_objs (list_write a xs h) = table_objs h"
  by (simp_all add: list_write_def)

lemma set_write_sel [simp]:
  "list_objs (set_write a A h) = list_objs h"
  "list_next (set_write a A h) = list_next h"
  "set_objs (set_write a A h) = (set_objs h)(a := A)"
  "set_next (set_write a A h) = set_next h"
  "closures_objs (set_write a A h) = closures_objs h"
  "closures_next (set_write a A h) = closures_next h"
  "automaton_objs (set_write a A h) = automaton_objs h"
  "table_objs (set_write a A h) = table_objs h"
  by (simp_all add: set_write_def)

lemma closures_write_sel [simp]:
  "list_objs (closures_write a d h) = list_objs h"
  "list_next (closures_write a d h) = list_next h"
  "set_objs (closures_write a d h) = set_objs h"
  "set_next (closures_write a d h) = set_next h"
  "closures_objs (closures_write a d h) = (closures_objs h)(a := d)"
  "closures_next (closures_write a d h) = closures_next h"
  "automaton_objs (closures_write a d h) = automaton_objs h"
  "table_objs (closures_write a d h) = table_objs h"
  by (simp_all add: closures_write_def)

lemma alloc_list_sel [simp]:
  "list_objs (alloc_list xs h) = (list_objs h)(list_next h := xs)"
  "list_next (alloc_list xs h) = Suc (list_next h)"
  "set_objs (alloc_list xs h) = set_objs h"
  "set_next (alloc_list xs h) = set_next h"
  "closures_objs (alloc_list xs h) = closures_objs h"
  "closures_next (alloc_list xs h) = closures_next h"
  "automaton_objs (alloc_list xs h) = automaton_objs h"
  "table_objs (alloc_list xs h) = table_objs h"
  by (simp_all add: alloc_list_def)

lemma alloc_set_sel [simp]:
  "list_objs (alloc_set A h) = list_objs h"
  "list_next (alloc_set A h) = list_next h"
  "set_objs (alloc_set A h) = (set_objs h)(set_next h := A)"
  "set_next (alloc_set A h) = Suc (set_next h)"
  "closures_objs (alloc_set A h) = closures_objs h"
  "closures_next (alloc_set A h) = closures_next h"
  "automaton_objs (alloc_set A h) = automaton_objs h"
  "table_objs (alloc_set A h) = table_objs h"
  by (simp_all add: alloc_set_def)

lemma alloc_closures_sel [simp]:
  "list_objs (alloc_closures d h) = list_objs h"
  "list_next (alloc_closures d h) = list_next h"
  "set_objs (alloc_closures d h) = set_objs h"
  "set_next (alloc_closures d h) = set_next h"
  "closures_objs (alloc_closures d h) = (closures_objs h)(closures_next h := d)"
  "closures_next (alloc_closures d h) = Suc (closures_next h)"
  "automaton_objs (alloc_closures d h) = automaton_objs h"
  "table_objs (alloc_closures d h) = table_objs h"
  by (simp_all add: alloc_closures_def)

lemma list_write_same: "list_write a (list_objs h a) h = h"
  by (simp add: list_write_def)

lemma list_write_twice: "list_write a xs (list_write a ys h) = list_write a xs h"
  by (simp add: list_write_def)

lemma append_targets_result:
  assumes "targets \<noteq> stack"
  shows "append_targets targets stack i h =
    Some (list_write stack (list_objs h stack @ drop i (list_objs h targets)) h)"
proof (induction "length (list_objs h targets) - i" arbitrary: i h)
  case 0
  then have "\<not> i < length (list_objs h targets)" by simp
  then show ?case by (subst append_targets.simps) (simp add: list_write_same)
next
  case (Suc k)
  then have lt: "i < length (list_objs h targets)" by simp
  let ?h = "list_write stack (list_objs h stack @ [list_objs h targets ! i]) h"
  have same: "list_objs ?h targets = list_objs h targets" using assms by simp
  have k: "k = length (list_objs ?h targets) - Suc i" using Suc.hyps(2) same by simp
  have "append_targets targets stack i h = append_targets targets stack (Suc i) ?h"
    using lt by (subst append_targets.simps) simp
  also have "\<dots> = Some (list_write stack (list_objs ?h stack @ drop (Suc i) (list_objs ?h targets)) ?h)"
    by (rule Suc.hyps(1)[OF k])
  also have "\<dots> = Some (list_write stack (list_objs h stack @ drop i (list_objs h targets)) h)"
    using assms lt by (simp add: Cons_nth_drop_Suc list_write_twice)
  finally show ?case .
qed


lemma fmmap_agree:
  assumes "\<forall>l\<in>fmran' m. f l = g l"
  shows "fmmap f m = fmmap g m"
proof (rule fmap_ext)
  fix k
  show "fmlookup (fmmap f m) k = fmlookup (fmmap g m) k"
  proof (cases "fmlookup m k")
    case None
    then show ?thesis by simp
  next
    case (Some l)
    then have "l \<in> fmran' m" by (rule fmran'I)
    with assms Some show ?thesis by simp
  qed
qed

lemma epsilon_targets_fmmap:
  "epsilon_targets (fmmap f tb) x =
     (case fmlookup tb (x, epsilon) of None \<Rightarrow> [] | Some l \<Rightarrow> f l)"
  by (simp add: epsilon_targets_def split: option.splits)

lemma search_loop_refines:
  assumes "stk < list_next h"
    and "\<forall>l\<in>fmran' (table_objs h (transitions_ref (automaton_objs h n))). l < list_next h \<and> l \<noteq> stk"
    and "fmlookup (closures_objs h e) state = Some a"
    and "fmlookup ec state = Some (set_objs h a)"
    and "v \<noteq> a"
    and "t = fmmap (list_objs h) (table_objs h (transitions_ref (automaton_objs h n)))"
    and "visited = set_objs h v"
    and "stack = list_objs h stk"
  shows "\<exists>h'. search_loop n e state v stk h = Some (Inr h') \<and>
    list_objs h' stk = [] \<and> search_frame h h' stk v a \<and>
    closure_loop t state (ec, visited, stack) = Inr (fmupd state (set_objs h' a) ec, set_objs h' v, [])"
  using assms
proof (induction t state "(ec, visited, stack)" arbitrary: ec visited stack h rule: closure_loop.induct)
  case (1 t state ec visited stack h)
  let ?tb = "table_objs h (transitions_ref (automaton_objs h n))"
  note stk = "1.prems"(1) and ran = "1.prems"(2) and ea = "1.prems"(3) and eca = "1.prems"(4)
    and va = "1.prems"(5) and t = "1.prems"(6) and vis = "1.prems"(7) and sta = "1.prems"(8)
  show ?case
  proof (cases "stack = []")
    case True
    have run: "search_loop n e state v stk h = Some (Inr h)"
      using True sta by (subst search_loop.simps) simp
    have pure: "closure_loop t state (ec, visited, stack) = Inr (ec, visited, [])"
      using True by (subst closure_loop.simps) simp
    have "fmupd state (set_objs h a) ec = ec" using eca by (rule fmupd_same)
    with run pure vis sta True show ?thesis
      by (intro exI[of _ h]) (simp add: search_frame_def)
  next
    case False
    let ?x = "last stack"
    let ?h1 = "list_write stk (butlast stack) h"
    show ?thesis
    proof (cases "?x \<in> visited")
      case True
      have run: "search_loop n e state v stk h = search_loop n e state v stk ?h1"
        using False True sta vis by (subst search_loop.simps) (simp add: Let_def)
      have pure: "closure_loop t state (ec, visited, stack) =
          closure_loop t state (ec, visited, butlast stack)"
        using False True by (subst closure_loop.simps) simp
      have "fmmap (list_objs ?h1) ?tb = fmmap (list_objs h) ?tb"
        by (rule fmmap_agree) (use ran in simp)
      then have t1: "t = fmmap (list_objs ?h1) (table_objs ?h1 (transitions_ref (automaton_objs ?h1 n)))"
        using t by simp
      have "\<exists>h'. search_loop n e state v stk ?h1 = Some (Inr h') \<and>
        list_objs h' stk = [] \<and> search_frame ?h1 h' stk v a \<and>
        closure_loop t state (ec, visited, butlast stack) = Inr (fmupd state (set_objs h' a) ec, set_objs h' v, [])"
        using stk ran ea eca va vis
        by (intro "1.hyps"(1)[OF False True] t1) simp_all
      then obtain h' where
        r: "search_loop n e state v stk ?h1 = Some (Inr h')"
        and c1: "list_objs h' stk = []" and c2: "search_frame ?h1 h' stk v a"
        and c5: "closure_loop t state (ec, visited, butlast stack) = Inr (fmupd state (set_objs h' a) ec, set_objs h' v, [])"
        by blast
      have "search_frame h h' stk v a" using c2 by (simp add: search_frame_def)
      with run r c1 c5 pure show ?thesis by (intro exI[of _ h']) simp
    next
      case unvisited: False
      let ?h3 = "set_write a (insert ?x (set_objs h a)) (set_write v (insert ?x visited) ?h1)"
      let ?h4 = "alloc_list [] ?h3"
      let ?tg = "table_get ?tb (?x, epsilon) (list_next h)"
      let ?stack' = "butlast stack @ epsilon_targets t ?x"
      let ?h5 = "list_write stk ?stack' ?h4"
      have tg: "?tg \<noteq> stk \<and> list_objs ?h4 ?tg = epsilon_targets t ?x"
      proof (cases "fmlookup ?tb (?x, epsilon)")
        case None
        with stk show ?thesis by (simp add: t epsilon_targets_fmmap table_get_def)
      next
        case (Some l)
        then have "l \<in> fmran' ?tb" by (rule fmran'I)
        with ran have "l < list_next h" "l \<noteq> stk" by auto
        with Some show ?thesis by (simp add: t epsilon_targets_fmmap table_get_def)
      qed
      have "append_targets ?tg stk 0 ?h4 =
          Some (list_write stk (list_objs ?h4 stk @ drop 0 (list_objs ?h4 ?tg)) ?h4)"
        using tg by (intro append_targets_result) simp
      also have "list_objs ?h4 stk @ drop 0 (list_objs ?h4 ?tg) = ?stack'"
        using tg stk by simp
      finally have app: "append_targets ?tg stk 0 ?h4 = Some ?h5" .
      have run: "search_loop n e state v stk h = search_loop n e state v stk ?h5"
        using False unvisited sta vis ea va app
        by (subst search_loop.simps) (simp add: Let_def)
      have pure: "closure_loop t state (ec, visited, stack) =
          closure_loop t state (fmupd state (insert ?x (set_objs h a)) ec, insert ?x visited, ?stack')"
        using False unvisited eca by (subst closure_loop.simps) simp
      have "fmmap (list_objs ?h5) ?tb = fmmap (list_objs h) ?tb"
        by (rule fmmap_agree) (use ran in auto)
      then have t5: "t = fmmap (list_objs ?h5) (table_objs ?h5 (transitions_ref (automaton_objs ?h5 n)))"
        using t by simp
      have "\<exists>h'. search_loop n e state v stk ?h5 = Some (Inr h') \<and>
        list_objs h' stk = [] \<and> search_frame ?h5 h' stk v a \<and>
        closure_loop t state (fmupd state (insert ?x (set_objs h a)) ec, insert ?x visited, ?stack')
          = Inr (fmupd state (set_objs h' a) (fmupd state (insert ?x (set_objs h a)) ec), set_objs h' v, [])"
        using stk ran ea va vis
        by (intro "1.hyps"(2)[OF False unvisited eca] t5) auto
      then obtain h' where
        r: "search_loop n e state v stk ?h5 = Some (Inr h')"
        and c1: "list_objs h' stk = []" and c2: "search_frame ?h5 h' stk v a"
        and c5: "closure_loop t state (fmupd state (insert ?x (set_objs h a)) ec, insert ?x visited, ?stack')
          = Inr (fmupd state (set_objs h' a) (fmupd state (insert ?x (set_objs h a)) ec), set_objs h' v, [])"
        by blast
      have "search_frame h h' stk v a" using c2 by (simp add: search_frame_def)
      moreover have "closure_loop t state (ec, visited, stack) = Inr (fmupd state (set_objs h' a) ec, set_objs h' v, [])"
        using pure c5 by simp
      ultimately show ?thesis using run r c1 by (intro exI[of _ h']) simp
    qed
  qed
qed

lemma fmmap_fmupd': "fmmap f (fmupd k v m) = fmupd k (f v) (fmmap f m)"
  by (rule fmap_ext) simp

lemma fmran'_fmupd_subset: "fmran' (fmupd k v m) \<subseteq> insert v (fmran' m)"
  by (auto simp: fmlookup_ran'_iff split: if_splits)

lemma states_for_loop_refines:
  assumes "sl < list_next h"
    and "\<forall>l\<in>fmran' (table_objs h (transitions_ref (automaton_objs h n))). l < list_next h"
    and "\<forall>a\<in>fmran' (closures_objs h e). a < set_next h"
    and "t = fmmap (list_objs h) (table_objs h (transitions_ref (automaton_objs h n)))"
  shows "\<exists>h'. states_for_loop n e sl i h = Some (Inr h') \<and> outer_frame h h' e \<and>
    (\<forall>a\<in>fmran' (closures_objs h' e). a \<in> fmran' (closures_objs h e) \<or> set_next h \<le> a) \<and>
    states_loop t (drop i (list_objs h sl)) (closures_at h e) = Inr (closures_at h' e)"
  using assms
proof (induction "length (list_objs h sl) - i" arbitrary: i h)
  case 0
  then have ge: "\<not> i < length (list_objs h sl)" by simp
  then have "states_for_loop n e sl i h = Some (Inr h)"
    by (subst states_for_loop.simps) simp
  with ge show ?case by (intro exI[of _ h]) (simp add: outer_frame_def)
next
  case (Suc k)
  let ?tb = "table_objs h (transitions_ref (automaton_objs h n))"
  let ?D = "closures_objs h e"
  note sl = Suc.prems(1) and ran = Suc.prems(2) and cran = Suc.prems(3) and t = Suc.prems(4)
  from Suc.hyps(2) have lt: "i < length (list_objs h sl)" by simp
  let ?state = "list_objs h sl ! i"
  let ?a = "set_next h"
  let ?v = "Suc (set_next h)"
  let ?stk = "list_next h"
  let ?h1 = "alloc_set {} h"
  let ?h2 = "closures_write e (fmupd ?state ?a (closures_objs ?h1 e)) ?h1"
  let ?h3 = "alloc_set {} ?h2"
  let ?h4 = "alloc_list [?state] ?h3"
  let ?ec0 = "closures_at h e"
  have old_sets: "\<forall>x\<in>fmran' ?D. x \<noteq> ?a \<and> x \<noteq> ?v" using cran by auto
  have "fmmap (list_objs ?h4) ?tb = fmmap (list_objs h) ?tb"
    by (rule fmmap_agree) (use ran in auto)
  then have t4: "t = fmmap (list_objs ?h4) (table_objs ?h4 (transitions_ref (automaton_objs ?h4 n)))"
    using t by simp
  have "\<exists>h'. search_loop n e ?state ?v ?stk ?h4 = Some (Inr h') \<and>
    list_objs h' ?stk = [] \<and> search_frame ?h4 h' ?stk ?v ?a \<and>
    closure_loop t ?state (fmupd ?state {} ?ec0, {}, [?state]) =
      Inr (fmupd ?state (set_objs h' ?a) (fmupd ?state {} ?ec0), set_objs h' ?v, [])"
    using ran by (intro search_loop_refines t4) auto
  then obtain h5 where
    r: "search_loop n e ?state ?v ?stk ?h4 = Some (Inr h5)"
    and fr: "search_frame ?h4 h5 ?stk ?v ?a"
    and pure: "closure_loop t ?state (fmupd ?state {} ?ec0, {}, [?state]) =
      Inr (fmupd ?state (set_objs h5 ?a) (fmupd ?state {} ?ec0), set_objs h5 ?v, [])"
    by blast
  have run: "states_for_loop n e sl i h = states_for_loop n e sl (Suc i) h5"
    using lt r by (subst states_for_loop.simps) (simp add: Let_def)
  from fr have l5: "\<forall>x<list_next h. list_objs h5 x = list_objs h x"
    and n5: "Suc (list_next h) \<le> list_next h5"
    and s5: "\<forall>x. x \<noteq> ?v \<and> x \<noteq> ?a \<longrightarrow> set_objs h5 x = set_objs h x"
    and sn5: "set_next h5 = Suc (Suc (set_next h))"
    and c5: "closures_objs h5 = (closures_objs h)(e := fmupd ?state ?a ?D)"
    and cn5: "closures_next h5 = closures_next h"
    and a5: "automaton_objs h5 = automaton_objs h" and tb5: "table_objs h5 = table_objs h"
    by (auto simp: search_frame_def)
  have sl5: "list_objs h5 sl = list_objs h sl" using l5 sl by simp
  have k: "k = length (list_objs h5 sl) - Suc i" using Suc.hyps(2) sl5 by simp
  have p1: "sl < list_next h5" using sl n5 by simp
  have p2: "\<forall>l\<in>fmran' (table_objs h5 (transitions_ref (automaton_objs h5 n))). l < list_next h5"
    using ran n5 by (auto simp: a5 tb5)
  have p3: "\<forall>a\<in>fmran' (closures_objs h5 e). a < set_next h5"
  proof
    fix x assume "x \<in> fmran' (closures_objs h5 e)"
    then have "x \<in> insert ?a (fmran' ?D)"
      using fmran'_fmupd_subset[of ?state ?a ?D] by (auto simp: c5)
    then have "x = ?a \<or> x < set_next h" using cran by auto
    then show "x < set_next h5" by (auto simp: sn5)
  qed
  have "fmmap (list_objs h5) ?tb = fmmap (list_objs h) ?tb"
    by (rule fmmap_agree) (use ran l5 in auto)
  then have p4: "t = fmmap (list_objs h5) (table_objs h5 (transitions_ref (automaton_objs h5 n)))"
    using t by (simp add: a5 tb5)
  from Suc.hyps(1)[OF k p1 p2 p3 p4] obtain h' where
    r': "states_for_loop n e sl (Suc i) h5 = Some (Inr h')"
    and fr': "outer_frame h5 h' e"
    and new': "\<forall>a\<in>fmran' (closures_objs h' e). a \<in> fmran' (closures_objs h5 e) \<or> set_next h5 \<le> a"
    and pure': "states_loop t (drop (Suc i) (list_objs h5 sl)) (closures_at h5 e) = Inr (closures_at h' e)"
    by blast
  have "fmmap (set_objs h5) ?D = fmmap (set_objs h) ?D"
    by (rule fmmap_agree) (use old_sets s5 in auto)
  then have ec5: "closures_at h5 e = fmupd ?state (set_objs h5 ?a) ?ec0"
    by (simp add: closures_at_def c5 fmmap_fmupd')
  have "drop i (list_objs h sl) = ?state # drop (Suc i) (list_objs h sl)"
    using lt by (simp add: Cons_nth_drop_Suc)
  then have "states_loop t (drop i (list_objs h sl)) ?ec0 = Inr (closures_at h' e)"
    using pure pure' by (simp add: ec5 sl5)
  moreover have "outer_frame h h' e"
    using fr' l5 n5 s5 sn5 c5 cn5 a5 tb5 by (auto simp: outer_frame_def)
  moreover have "\<forall>a\<in>fmran' (closures_objs h' e). a \<in> fmran' ?D \<or> set_next h \<le> a"
  proof
    fix x assume "x \<in> fmran' (closures_objs h' e)"
    with new' have "x \<in> fmran' (closures_objs h5 e) \<or> set_next h5 \<le> x" by blast
    then have "x \<in> insert ?a (fmran' ?D) \<or> set_next h5 \<le> x"
      using fmran'_fmupd_subset[of ?state ?a ?D] by (auto simp: c5)
    then show "x \<in> fmran' ?D \<or> set_next h \<le> x" by (auto simp: sn5)
  qed
  ultimately show ?case using run r' by (intro exI[of _ h']) simp
qed

lemma nfa_at_unchanged:
  assumes "allocated h n" and "unchanged h h'"
  shows "nfa_at h' n = nfa_at h n"
proof -
  let ?tb = "table_objs h (transitions_ref (automaton_objs h n))"
  have "fmmap (list_objs h') ?tb = fmmap (list_objs h) ?tb"
    by (rule fmmap_agree) (use assms in \<open>auto simp: allocated_def unchanged_def\<close>)
  with assms show ?thesis by (simp add: nfa_at_def allocated_def unchanged_def)
qed

lemma demo_store_nfa: "nfa_at demo_store 0 = demo_e_nfa"
  apply (simp add: nfa_at_def demo_store_def demo_e_nfa_def)
  apply (rule fmap_ext)
  apply (auto simp: epsilon_def)
  done

lemma demo_store_allocated: "allocated demo_store 0"
  by (auto simp: allocated_def demo_store_def fmlookup_ran'_iff epsilon_def split: if_splits)



text \<open>Every automaton is held by some store, with allocated references.\<close>

lemma store_of_represents:
  assumes "set ks = fmdom' (transitions N)" and "distinct ks"
  shows "allocated (store_of N ks) 0 \<and> nfa_at (store_of N ks) 0 = N"
proof
  let ?h = "store_of N ks"
  let ?tb = "fmap_of_list (zip ks [3..<3 + length ks])"
  have look: "fmlookup ?tb (ks ! i) = Some (3 + i)" if "i < length ks" for i
    using that assms(2) by (simp add: fmlookup_of_list map_of_zip_nth)
  have none: "fmlookup ?tb k = None" if "k \<notin> set ks" for k
    using that by (simp add: fmlookup_of_list map_of_zip_is_None)
  have vals: "l < 3 + length ks" if "l \<in> fmran' ?tb" for l
  proof -
    from that obtain k where "fmlookup ?tb k = Some l" by (auto simp: fmlookup_ran'_iff)
    then have "(k, l) \<in> set (zip ks [3..<3 + length ks])"
      by (simp add: fmlookup_of_list map_of_SomeD)
    then have "l \<in> set [3..<3 + length ks]" by (rule set_zip_rightD)
    then show ?thesis by simp
  qed
  show "allocated ?h 0"
    using vals by (auto simp: allocated_def store_of_def)
  have "fmmap (list_objs ?h) ?tb = transitions N"
  proof (rule fmap_ext)
    fix k
    show "fmlookup (fmmap (list_objs ?h) ?tb) k = fmlookup (transitions N) k"
    proof (cases "k \<in> set ks")
      case True
      then obtain i where i: "i < length ks" "ks ! i = k" by (auto simp: in_set_conv_nth)
      from True assms(1) obtain xs where xs: "fmlookup (transitions N) k = Some xs"
        by (auto simp: fmlookup_dom'_iff)
      from look[OF i(1)] i(2) have "fmlookup ?tb k = Some (3 + i)" by simp
      then show ?thesis using i xs by (simp add: store_of_def)
    next
      case False
      with assms(1) have "fmlookup (transitions N) k = None"
        by (auto simp: fmlookup_dom'_iff)
      with none[OF False] show ?thesis by simp
    qed
  qed
  then show "nfa_at ?h 0 = N"
    by (simp add: nfa_at_def store_of_def)
qed

lemma every_nfa_in_some_store: "\<exists>h n. allocated h n \<and> nfa_at h n = N"
proof -
  have "finite (fmdom' (transitions N))" by (simp add: fmdom'_alt_def)
  then obtain ks where "set ks = fmdom' (transitions N)" "distinct ks"
    using finite_distinct_list by blast
  from store_of_represents[OF this] show ?thesis by blast
qed

text \<open>
  Claim C9. Let the automaton at address \<open>n\<close> of a store have allocated references. Then
  the function returns, without raising; the dictionary it returns is a new object (its
  address, and the addresses of the sets it holds, were free before the call); every
  object allocated before the call is unchanged, so the automaton at \<open>n\<close> has the same
  states, alphabet, transitions, start state and accepting states as before; and the
  returned dictionary holds the closures that the embedding on values computes. By the
  lemma above the hypothesis leaves no automaton out.
\<close>

theorem input_automaton_unchanged:
  assumes "allocated h n"
  shows "\<exists>h'. calculate_epsilon_closures_store n h = Some (Inr (closures_next h, h')) \<and>
    unchanged h h' \<and> nfa_at h' n = nfa_at h n \<and>
    (\<forall>a\<in>fmran' (closures_objs h' (closures_next h)). set_next h \<le> a) \<and>
    calculate_epsilon_closures (nfa_at h n) = Inr (closures_at h' (closures_next h))"
proof -
  let ?e = "closures_next h"
  let ?h1 = "alloc_closures fmempty h"
  let ?sl = "states_ref (automaton_objs ?h1 n)"
  let ?t = "fmmap (list_objs ?h1) (table_objs ?h1 (transitions_ref (automaton_objs ?h1 n)))"
  have "\<exists>h'. states_for_loop n ?e ?sl 0 ?h1 = Some (Inr h') \<and> outer_frame ?h1 h' ?e \<and>
    (\<forall>a\<in>fmran' (closures_objs h' ?e). a \<in> fmran' (closures_objs ?h1 ?e) \<or> set_next ?h1 \<le> a) \<and>
    states_loop ?t (drop 0 (list_objs ?h1 ?sl)) (closures_at ?h1 ?e) = Inr (closures_at h' ?e)"
    using assms by (intro states_for_loop_refines) (auto simp: allocated_def)
  then obtain h' where r: "states_for_loop n ?e ?sl 0 ?h1 = Some (Inr h')"
    and fr: "outer_frame ?h1 h' ?e"
    and new: "\<forall>a\<in>fmran' (closures_objs h' ?e). a \<in> fmran' (closures_objs ?h1 ?e) \<or> set_next ?h1 \<le> a"
    and pure: "states_loop ?t (drop 0 (list_objs ?h1 ?sl)) (closures_at ?h1 ?e) = Inr (closures_at h' ?e)"
    by blast
  have run: "calculate_epsilon_closures_store n h = Some (Inr (?e, h'))"
    using r by (simp add: calculate_epsilon_closures_store_def Let_def)
  have un: "unchanged h h'" using fr by (auto simp: outer_frame_def unchanged_def)
  have "calculate_epsilon_closures (nfa_at h n) = Inr (closures_at h' ?e)"
    using pure by (simp add: calculate_epsilon_closures_def nfa_at_def closures_at_def)
  moreover have "\<forall>a\<in>fmran' (closures_objs h' ?e). set_next h \<le> a"
    using new by (auto simp: fmlookup_ran'_iff)
  ultimately show ?thesis
    using run un nfa_at_unchanged[OF assms un] by (intro exI[of _ h']) simp
qed

text \<open>The theorem at the store that holds the driver's epsilon-NFA.\<close>

theorem input_automaton_unchanged_witness:
  "allocated demo_store 0 \<and> nfa_at demo_store 0 = demo_e_nfa \<and>
   (\<exists>h'. calculate_epsilon_closures_store 0 demo_store = Some (Inr (closures_next demo_store, h')) \<and>
      unchanged demo_store h' \<and> nfa_at h' 0 = demo_e_nfa \<and>
      calculate_epsilon_closures demo_e_nfa = Inr (closures_at h' (closures_next demo_store)))"
proof -
  from input_automaton_unchanged[OF demo_store_allocated] obtain h' where
    "calculate_epsilon_closures_store 0 demo_store = Some (Inr (closures_next demo_store, h'))"
    "unchanged demo_store h'" "nfa_at h' 0 = nfa_at demo_store 0"
    "calculate_epsilon_closures (nfa_at demo_store 0) = Inr (closures_at h' (closures_next demo_store))"
    by (elim exE conjE)
  then show ?thesis
    unfolding demo_store_nfa using demo_store_allocated by (intro conjI exI[of _ h']) simp_all
qed

end
